theory Spec2Isabelle
  imports Main "HOL-Library.Sublist"
begin

section \<open>Python strings\<close>

text \<open>
  A Python \<^verbatim>\<open>str\<close> is a sequence of Unicode code points; positions, slices, the
  regular-expression engine and \<^verbatim>\<open>str.strip\<close> all count code points. A string is
  therefore a list of code points, each a natural number. \<open>py\<close> turns an ASCII literal
  into such a list.
\<close>

type_synonym pystr = "nat list"

definition py :: "string \<Rightarrow> pystr" where
  "py s = map of_char s"

abbreviation nl :: nat where "nl \<equiv> 10"
abbreviation sp :: nat where "sp \<equiv> 32"
abbreviation hash :: nat where "hash \<equiv> 35"
abbreviation tick :: nat where "tick \<equiv> 96"

text \<open>
  The characters that \<^verbatim>\<open>str.strip()\<close> removes when called without an argument: the
  code points for which \<^verbatim>\<open>str.isspace\<close> holds.
\<close>

definition is_space :: "nat \<Rightarrow> bool" where
  "is_space c \<longleftrightarrow>
     (9 \<le> c \<and> c \<le> 13) \<or> (28 \<le> c \<and> c \<le> 32) \<or> c = 133 \<or> c = 160 \<or> c = 5760 \<or>
     (8192 \<le> c \<and> c \<le> 8202) \<or> c = 8232 \<or> c = 8233 \<or> c = 8239 \<or> c = 8287 \<or> c = 12288"

definition lstrip :: "pystr \<Rightarrow> pystr" where
  "lstrip s = dropWhile is_space s"

definition rstrip :: "pystr \<Rightarrow> pystr" where
  "rstrip s = rev (dropWhile is_space (rev s))"

definition strip :: "pystr \<Rightarrow> pystr" where
  "strip s = rstrip (lstrip s)"

text \<open>\<^verbatim>\<open>s[a:b]\<close> for non-negative \<open>a\<close> and \<open>b\<close>; out-of-range bounds are clipped.\<close>

definition slice :: "pystr \<Rightarrow> nat \<Rightarrow> nat \<Rightarrow> pystr" where
  "slice s a b = take (b - a) (drop a s)"

text \<open>\<^verbatim>\<open>s.replace(old, new, 1)\<close>: the leftmost occurrence of \<open>old\<close> is replaced.\<close>

fun replace_first :: "pystr \<Rightarrow> pystr \<Rightarrow> pystr \<Rightarrow> pystr" where
  "replace_first old new [] = (if old = [] then new else [])"
| "replace_first old new (c # cs) =
     (if prefix old (c # cs) then new @ drop (length old) (c # cs)
      else c # replace_first old new cs)"

text \<open>\<^verbatim>\<open>s.split("\n")\<close>: the lines of a text.\<close>

fun split_lines :: "pystr \<Rightarrow> pystr list" where
  "split_lines [] = [[]]"
| "split_lines (c # cs) =
     (if c = nl then [] # split_lines cs
      else (case split_lines cs of [] \<Rightarrow> [[c]] | l # ls \<Rightarrow> (c # l) # ls))"

section \<open>The Markdown parser\<close>

subsection \<open>Stripping the fenced wrapper\<close>

text \<open>
  \<^verbatim>\<open>re.sub(r"```markdown\n(.*?)```", r"\1", text, flags=re.DOTALL)\<close>.
  \<open>find_fence_close\<close> is the lazy group followed by the closing fence: it splits a text
  at the leftmost three backticks into the group and what follows the fence.
  \<open>match_fence\<close> is one attempt of the whole pattern at the start of a text.
  \<^verbatim>\<open>re.sub\<close> without a count scans left to right, replaces every match by its
  group, resumes after the end of the match, and copies unmatched characters.
\<close>

definition fence_open :: pystr where
  "fence_open = [tick, tick, tick, 109, 97, 114, 107, 100, 111, 119, 110, nl]"

definition fence_close :: pystr where
  "fence_close = [tick, tick, tick]"

fun find_fence_close :: "pystr \<Rightarrow> (pystr \<times> pystr) option" where
  "find_fence_close [] = None"
| "find_fence_close (c # cs) =
     (if prefix fence_close (c # cs) then Some ([], drop 3 (c # cs))
      else (case find_fence_close cs of
              None \<Rightarrow> None
            | Some (g, rest) \<Rightarrow> Some (c # g, rest)))"

definition match_fence :: "pystr \<Rightarrow> (pystr \<times> pystr) option" where
  "match_fence s =
     (if prefix fence_open s then find_fence_close (drop (length fence_open) s) else None)"

lemma find_fence_close_length:
  "find_fence_close s = Some (g, rest) \<Longrightarrow> length rest < length s"
proof (induction s arbitrary: g)
  case Nil
  then show ?case by simp
next
  case (Cons c cs)
  then show ?case
    by (auto split: if_splits option.splits)
qed

lemma match_fence_length:
  "match_fence s = Some (g, rest) \<Longrightarrow> length rest < length s"
  by (auto simp: match_fence_def split: if_splits dest!: find_fence_close_length)

function remove_markdown_block :: "pystr \<Rightarrow> pystr" where
  "remove_markdown_block [] = []"
| "remove_markdown_block (c # cs) =
     (case match_fence (c # cs) of
        Some (g, rest) \<Rightarrow> g @ remove_markdown_block rest
      | None \<Rightarrow> c # remove_markdown_block cs)"
  by pat_completeness auto
termination
  by (relation "measure length") (auto dest: match_fence_length)

subsection \<open>Title extraction\<close>

text \<open>
  \<^verbatim>\<open>re.search(r"^# (.+)", markdown_content, re.MULTILINE)\<close>.
  With \<^verbatim>\<open>re.MULTILINE\<close> the anchor matches at the start of the text and right
  after every line feed; the dot matches every character but the line feed, and
  \<^verbatim>\<open>.+\<close> is greedy, so the group runs to the end of the line and must not be empty.
  \<open>title_match\<close> is one attempt at a position where the anchor holds and returns
  group 1; \<open>title_search\<close> tries the positions from left to right, its first argument
  telling whether the anchor holds at the current position.
\<close>

definition title_match :: "pystr \<Rightarrow> pystr option" where
  "title_match s =
     (if prefix [hash, sp] s \<and> takeWhile (\<lambda>c. c \<noteq> nl) (drop 2 s) \<noteq> []
      then Some (takeWhile (\<lambda>c. c \<noteq> nl) (drop 2 s)) else None)"

fun title_search :: "bool \<Rightarrow> pystr \<Rightarrow> pystr option" where
  "title_search bol [] = None"
| "title_search bol (c # cs) =
     (case (if bol then title_match (c # cs) else None) of
        Some g \<Rightarrow> Some g
      | None \<Rightarrow> title_search (c = nl) cs)"

text \<open>The placeholder title, five code points: U+7121, U+984C, U+306E, U+8A18, U+4E8B.\<close>

definition untitled :: pystr where
  "untitled = [0x7121, 0x984C, 0x306E, 0x8A18, 0x4E8B]"

text \<open>
  Lines 46 to 55 of \<^verbatim>\<open>parse_markdown\<close>: the title and the body. Group 0 of the match is
  \<^verbatim>\<open>"# "\<close> followed by group 1.
\<close>

definition extract_title :: "pystr \<Rightarrow> pystr \<times> pystr" where
  "extract_title markdown_content =
     (case title_search True markdown_content of
        Some g \<Rightarrow> (strip g, strip (replace_first ([hash, sp] @ g) [] markdown_content))
      | None \<Rightarrow> (untitled, markdown_content))"

subsection \<open>Segmentation into sections\<close>

text \<open>
  \<^verbatim>\<open>re.compile(r"^(#{1,3}) (.+)", re.MULTILINE)\<close>. \<open>heading_try k\<close> is the attempt
  with \<open>k\<close> hash signs in group 1, falling back to fewer: the quantifier is greedy, so
  the engine tries three first, then two, then one. Group 2 is the rest of the line and
  must not be empty.
\<close>

fun heading_try :: "nat \<Rightarrow> pystr \<Rightarrow> (pystr \<times> pystr) option" where
  "heading_try 0 s = None"
| "heading_try (Suc k) s =
     (if prefix (replicate (Suc k) hash @ [sp]) s \<and>
         takeWhile (\<lambda>c. c \<noteq> nl) (drop (Suc (Suc k)) s) \<noteq> []
      then Some (replicate (Suc k) hash, takeWhile (\<lambda>c. c \<noteq> nl) (drop (Suc (Suc k)) s))
      else heading_try k s)"

definition heading_match :: "pystr \<Rightarrow> (pystr \<times> pystr) option" where
  "heading_match s = heading_try 3 s"

text \<open>A match object: \<^verbatim>\<open>start()\<close>, \<^verbatim>\<open>end()\<close>, \<^verbatim>\<open>group(1)\<close>, \<^verbatim>\<open>group(2)\<close>.\<close>

record hmatch =
  m_start :: nat
  m_end :: nat
  m_group1 :: pystr
  m_group2 :: pystr

text \<open>
  \<^verbatim>\<open>heading_pattern.finditer(content)\<close>: the matches from left to right, none
  overlapping another. The scan is at position \<open>pos\<close> of the content, the third argument is
  the content from there on, and \<open>bol\<close> tells whether the anchor holds at \<open>pos\<close>
  (start of the text, or the character before is a line feed). After a match the scan
  resumes at its end.
\<close>

function heading_finditer :: "nat \<Rightarrow> bool \<Rightarrow> pystr \<Rightarrow> hmatch list" where
  "heading_finditer pos bol [] = []"
| "heading_finditer pos bol (c # cs) =
     (case (if bol then heading_match (c # cs) else None) of
        Some (g1, g2) \<Rightarrow>
          \<lparr>m_start = pos, m_end = pos + length (g1 @ sp # g2), m_group1 = g1, m_group2 = g2\<rparr> #
          heading_finditer (pos + length (g1 @ sp # g2)) (last (g1 @ sp # g2) = nl)
            (drop (length (g1 @ sp # g2)) (c # cs))
      | None \<Rightarrow> heading_finditer (Suc pos) (c = nl) cs)"
  by pat_completeness auto
termination
  by (relation "measure (\<lambda>(pos, bol, s). length s)") auto

text \<open>A section: the dictionary with the keys \<^verbatim>\<open>"type"\<close> and \<^verbatim>\<open>"content"\<close>.
  The type \<^verbatim>\<open>f"heading{heading_level}"\<close> is \<open>Heading heading_level\<close>.\<close>

datatype sec_type = Paragraph | Heading nat

record sec =
  sec_type :: sec_type
  sec_content :: pystr

text \<open>The body of the \<^verbatim>\<open>for match in heading_pattern.finditer(content)\<close> loop, run over
  the matches; it returns \<^verbatim>\<open>last_pos\<close> and \<^verbatim>\<open>sections\<close>.\<close>

fun sections_loop :: "pystr \<Rightarrow> hmatch list \<Rightarrow> nat \<Rightarrow> sec list \<Rightarrow> nat \<times> sec list" where
  "sections_loop content [] last_pos sections = (last_pos, sections)"
| "sections_loop content (m # ms) last_pos sections =
     (let paragraph_content = strip (slice content last_pos (m_start m));
          sections1 = (if paragraph_content \<noteq> []
                       then sections @ [\<lparr>sec_type = Paragraph, sec_content = paragraph_content\<rparr>]
                       else sections);
          heading_level = length (m_group1 m);
          heading_text = m_group1 m @ [sp] @ strip (m_group2 m);
          sections2 = sections1 @ [\<lparr>sec_type = Heading heading_level, sec_content = heading_text\<rparr>]
      in sections_loop content ms (m_end m) sections2)"

text \<open>Lines 59 to 86 of \<^verbatim>\<open>parse_markdown\<close>: the loop and the last section.\<close>

definition parse_sections :: "pystr \<Rightarrow> sec list" where
  "parse_sections content =
     (case sections_loop content (heading_finditer 0 True content) 0 [] of
        (last_pos, sections) \<Rightarrow>
          if last_pos < length content then
            (let paragraph_content = strip (drop last_pos content)
             in if paragraph_content \<noteq> []
                then sections @ [\<lparr>sec_type = Paragraph, sec_content = paragraph_content\<rparr>]
                else sections)
          else sections)"

definition parse_markdown :: "pystr \<Rightarrow> pystr \<times> sec list" where
  "parse_markdown markdown_content =
     (case extract_title (remove_markdown_block markdown_content) of
        (title, content) \<Rightarrow> (title, parse_sections content))"

section \<open>The article model\<close>

text \<open>A \<^verbatim>\<open>datetime\<close> is a point in time; \<^verbatim>\<open>None\<close> is \<open>None\<close>.\<close>

type_synonym datetime = nat

record article =
  title :: pystr
  content :: pystr
  status :: pystr
  created_at :: datetime
  published_at :: "datetime option"
  improved_content :: "pystr option"

text \<open>
  \<^verbatim>\<open>Article.__init__\<close>. An optional argument that the caller leaves out is \<open>None\<close>;
  \<open>now\<close> is what \<^verbatim>\<open>datetime.now()\<close> returns.
\<close>

definition Article_init ::
  "datetime \<Rightarrow> pystr \<Rightarrow> pystr \<Rightarrow> pystr option \<Rightarrow> datetime option \<Rightarrow> datetime option \<Rightarrow>
   pystr option \<Rightarrow> article" where
  "Article_init now t c st cr pub imp =
     \<lparr>title = t, content = c,
      status = (case st of None \<Rightarrow> py ''draft'' | Some s \<Rightarrow> s),
      created_at = (case cr of None \<Rightarrow> now | Some d \<Rightarrow> d),
      published_at = pub,
      improved_content = imp\<rparr>"

text \<open>
  The dictionary read by \<^verbatim>\<open>Article.from_dict\<close>, as \<^verbatim>\<open>to_dict\<close> writes it, with
  keys possibly missing. For \<^verbatim>\<open>title\<close>, \<^verbatim>\<open>content\<close> and \<^verbatim>\<open>status\<close>, \<open>None\<close> is a
  missing key; for the other three, read with \<^verbatim>\<open>data.get\<close>, \<open>None\<close> is a missing key
  or the value \<^verbatim>\<open>None\<close>.
\<close>

record article_dict =
  d_title :: "pystr option"
  d_content :: "pystr option"
  d_status :: "pystr option"
  d_created_at :: "pystr option"
  d_published_at :: "pystr option"
  d_improved_content :: "pystr option"

datatype error = KeyError | ValueError

text \<open>
  \<^verbatim>\<open>datetime.fromisoformat(x) if data.get(k) else None\<close>, with the parser
  \<^verbatim>\<open>fromisoformat\<close> a parameter that returns \<open>None\<close> where it raises \<^verbatim>\<open>ValueError\<close>.
  The empty string is falsy.
\<close>

definition get_datetime :: "(pystr \<Rightarrow> datetime option) \<Rightarrow> pystr option \<Rightarrow> error + datetime option" where
  "get_datetime fromisoformat v =
     (case v of
        None \<Rightarrow> Inr None
      | Some x \<Rightarrow>
          if x = [] then Inr None
          else (case fromisoformat x of None \<Rightarrow> Inl ValueError | Some d \<Rightarrow> Inr (Some d)))"

definition from_dict ::
  "(pystr \<Rightarrow> datetime option) \<Rightarrow> datetime \<Rightarrow> article_dict \<Rightarrow> error + article" where
  "from_dict fromisoformat now data =
     (case get_datetime fromisoformat (d_created_at data) of
        Inl e \<Rightarrow> Inl e
      | Inr cr \<Rightarrow>
     (case get_datetime fromisoformat (d_published_at data) of
        Inl e \<Rightarrow> Inl e
      | Inr pub \<Rightarrow>
     (case d_title data of
        None \<Rightarrow> Inl KeyError
      | Some t \<Rightarrow>
     (case d_content data of
        None \<Rightarrow> Inl KeyError
      | Some c \<Rightarrow>
          Inr (Article_init now t c
                 (Some (case d_status data of None \<Rightarrow> py ''draft'' | Some s \<Rightarrow> s))
                 cr pub (d_improved_content data))))))"

definition article_inv :: "article \<Rightarrow> bool" where
  "article_inv a \<longleftrightarrow> (published_at a \<noteq> None \<longleftrightarrow> status a = py ''published'')"

section \<open>Posting through the browser\<close>

text \<open>
  The calls that \<^verbatim>\<open>post_article\<close> makes on Playwright and on the clipboard. The
  selectors and addresses are named: \<open>EmailInput\<close> is \<^verbatim>\<open>#email\<close>, \<open>PasswordInput\<close> is
  \<^verbatim>\<open>#password\<close>, \<open>LoginButton\<close>, \<open>TitleField\<close>, \<open>SaveButton\<close>, \<open>PublishButton\<close> and
  \<open>PaidPublishButton\<close> are the selectors of lines 128, 139, 173, 180 and 184;
  \<open>LoginPage\<close> and \<open>NewNotePage\<close> are the two addresses.
\<close>

datatype selector =
  EmailInput | PasswordInput | LoginButton | TitleField | SaveButton | PublishButton
  | PaidPublishButton

datatype url = LoginPage | NewNotePage

datatype key = Enter | ControlV

datatype action =
  PlaywrightStart | Launch | NewContext | NewPage
  | Goto url | WaitForSelector selector | WaitForLoadState
  | Fill selector pystr | Click selector | Press key | ClipboardCopy pystr
  | IsVisible selector
  | ContextClose | BrowserClose | PlaywrightStop

text \<open>
  The browser and the site are outside the program. \<open>fails b t a\<close> tells whether the call
  \<open>a\<close> raises after the calls \<open>t\<close> were made; \<open>publish_visible b t\<close> is what
  \<^verbatim>\<open>page.is_visible\<close> returns for the publish button after \<open>t\<close>.
\<close>

record browser =
  fails :: "action list \<Rightarrow> action \<Rightarrow> bool"
  publish_visible :: "action list \<Rightarrow> bool"

text \<open>A sequence of calls: the first one that raises ends it. \<open>Inl\<close> is the exception,
  and both results carry the calls made, the raising one included.\<close>

fun run_calls :: "browser \<Rightarrow> action list \<Rightarrow> action list \<Rightarrow> action list + action list" where
  "run_calls b [] t = Inr t"
| "run_calls b (a # as) t =
     (if fails b t a then Inl (t @ [a]) else run_calls b as (t @ [a]))"

record note_poster_service =
  email :: pystr
  password :: pystr

text \<open>Lines 104 to 106: \<^verbatim>\<open>None\<close> and the empty string are falsy.\<close>

definition selected_content :: "article \<Rightarrow> pystr" where
  "selected_content a =
     (case improved_content a of
        None \<Rightarrow> content a
      | Some s \<Rightarrow> if s \<noteq> [] then s else content a)"

text \<open>Lines 112 to 114: opening the session inside the \<^verbatim>\<open>with\<close> block, before
  the \<^verbatim>\<open>try\<close>.\<close>

definition open_session :: "browser \<Rightarrow> action list + action list" where
  "open_session b = run_calls b [Launch, NewContext, NewPage] [PlaywrightStart]"

text \<open>Lines 119 to 129, 135 to 140, 145 to 167 and 173 to 174.\<close>

definition login_actions :: "note_poster_service \<Rightarrow> action list" where
  "login_actions self =
     [Goto LoginPage, WaitForSelector EmailInput, WaitForSelector PasswordInput,
      WaitForLoadState, Fill EmailInput (email self), Fill PasswordInput (password self),
      Click LoginButton, WaitForLoadState]"

definition new_note_actions :: "pystr \<Rightarrow> action list" where
  "new_note_actions t = [Goto NewNotePage, WaitForLoadState, Fill TitleField t, Press Enter]"

definition section_actions :: "sec \<Rightarrow> action list" where
  "section_actions s =
     (case sec_type s of
        Paragraph \<Rightarrow> [ClipboardCopy (sec_content s), Press ControlV, Press Enter, Press Enter]
      | Heading level \<Rightarrow> [ClipboardCopy (sec_content s), Press ControlV, Press Enter])"

definition save_actions :: "action list" where
  "save_actions = [Click SaveButton, WaitForLoadState]"

definition steps_to_save :: "note_poster_service \<Rightarrow> pystr \<Rightarrow> sec list \<Rightarrow> action list" where
  "steps_to_save self t sections =
     login_actions self @ new_note_actions t @ concat (map section_actions sections) @
     save_actions"

definition publish_actions :: "action list" where
  "publish_actions =
     [Click PublishButton, WaitForSelector PaidPublishButton, Click PaidPublishButton,
      WaitForLoadState]"

text \<open>Lines 179 to 195, the inner \<^verbatim>\<open>try\<close>: every path through it ends in
  \<^verbatim>\<open>return True\<close>, so only the article and the calls are returned.\<close>

definition publish_step :: "browser \<Rightarrow> datetime \<Rightarrow> article \<Rightarrow> action list \<Rightarrow> article \<times> action list" where
  "publish_step b now a t =
     (if fails b t (IsVisible PublishButton) then (a, t @ [IsVisible PublishButton])
      else if publish_visible b t then
        (case run_calls b publish_actions (t @ [IsVisible PublishButton]) of
           Inl t' \<Rightarrow> (a, t')
         | Inr t' \<Rightarrow> (a\<lparr>status := py ''published'', published_at := Some now\<rparr>, t'))
      else (a, t @ [IsVisible PublishButton]))"

text \<open>Lines 116 to 201, the outer \<^verbatim>\<open>try\<close> with its \<^verbatim>\<open>except\<close>.\<close>

definition try_block ::
  "browser \<Rightarrow> datetime \<Rightarrow> note_poster_service \<Rightarrow> pystr \<Rightarrow> sec list \<Rightarrow> article \<Rightarrow> action list \<Rightarrow>
   bool \<times> article \<times> action list" where
  "try_block b now self t sections a tr =
     (case run_calls b (steps_to_save self t sections) tr of
        Inl tr' \<Rightarrow> (False, a, tr')
      | Inr tr' \<Rightarrow> (case publish_step b now a tr' of (a', tr'') \<Rightarrow> (True, a', tr'')))"

text \<open>
  Lines 202 to 204, the \<^verbatim>\<open>finally\<close> clause: \<^verbatim>\<open>context.close()\<close> and then
  \<^verbatim>\<open>browser.close()\<close>. When the first raises, the second is not called.
\<close>

definition finally_block :: "browser \<Rightarrow> action list \<Rightarrow> action list + action list" where
  "finally_block b tr = run_calls b [ContextClose, BrowserClose] tr"

text \<open>
  \<^verbatim>\<open>post_article\<close>. The result is what the call does (it returns a value, or an
  exception leaves it), the article after the call, and the calls made on the browser.
  \<open>fails\<close> stands for raising an \<^verbatim>\<open>Exception\<close>, which is what the \<^verbatim>\<open>except\<close>
  clause catches.

  An exception while the session is opened is outside the \<^verbatim>\<open>try\<close> and leaves the
  function. An exception in the \<^verbatim>\<open>finally\<close> clause replaces the value that the
  \<^verbatim>\<open>try\<close> block was about to return and leaves the function as well. The
  \<^verbatim>\<open>with\<close> block stops Playwright on every way out, after an exception too; when
  stopping raises, that exception leaves the function.
\<close>

datatype outcome = Returned bool | Raised

definition post_article ::
  "browser \<Rightarrow> datetime \<Rightarrow> note_poster_service \<Rightarrow> article \<Rightarrow> outcome \<times> article \<times> action list" where
  "post_article b now self a =
     (case parse_markdown (selected_content a) of
        (t, sections) \<Rightarrow>
          if fails b [] PlaywrightStart then (Raised, a, [PlaywrightStart])
          else
            (case open_session b of
               Inl tr \<Rightarrow> (Raised, a, tr @ [PlaywrightStop])
             | Inr tr \<Rightarrow>
                 (case try_block b now self t sections a tr of
                    (r, a', tr') \<Rightarrow>
                      (case finally_block b tr' of
                         Inl tr'' \<Rightarrow> (Raised, a', tr'' @ [PlaywrightStop])
                       | Inr tr'' \<Rightarrow>
                           (if fails b tr'' PlaywrightStop then Raised else Returned r,
                            a', tr'' @ [PlaywrightStop])))))"

text \<open>Browsers for the examples: one where launching fails, one where every call
  returns and the publish button is not shown, one where the login click fails, one that
  shows the publish button, and one where every call returns but closing the context.\<close>

definition launch_fails :: browser where
  "launch_fails = \<lparr>fails = (\<lambda>t a. a = Launch), publish_visible = (\<lambda>t. False)\<rparr>"


definition login_fails :: browser where
  "login_fails = \<lparr>fails = (\<lambda>t a. a = Click LoginButton), publish_visible = (\<lambda>t. False)\<rparr>"

definition publishing :: browser where
  "publishing = \<lparr>fails = (\<lambda>t a. False), publish_visible = (\<lambda>t. True)\<rparr>"


definition new_page_fails :: browser where
  "new_page_fails = \<lparr>fails = (\<lambda>t a. a = NewPage), publish_visible = (\<lambda>t. False)\<rparr>"

definition a_service :: note_poster_service where
  "a_service = \<lparr>email = py ''a@b.c'', password = py ''pw''\<rparr>"

definition a_draft :: article where
  "a_draft = Article_init 7 [] (py ''# T'') None None None None"

text \<open>A date parser that accepts every text, a dictionary of a published article, and
  articles with a revised text that is empty or not.\<close>

definition iso_ok :: "pystr \<Rightarrow> datetime option" where
  "iso_ok x = Some 3"

definition a_dict :: article_dict where
  "a_dict = \<lparr>d_title = Some (py ''t''), d_content = Some (py ''c''),
             d_status = Some (py ''published''), d_created_at = None,
             d_published_at = Some (py ''2025-01-01''), d_improved_content = None\<rparr>"





text \<open>Texts for the statements: a text made of wrapped regions, each after a text
  \<open>before\<close>, and the same text with the fences taken out; a text of two wrapped regions
  with a line feed between them.\<close>

fun wrapped :: "(pystr \<times> pystr) list \<Rightarrow> pystr \<Rightarrow> pystr" where
  "wrapped [] rest = rest"
| "wrapped ((before, inner) # rs) rest =
     before @ fence_open @ inner @ fence_close @ wrapped rs rest"

fun unwrapped :: "(pystr \<times> pystr) list \<Rightarrow> pystr \<Rightarrow> pystr" where
  "unwrapped [] rest = rest"
| "unwrapped ((before, inner) # rs) rest = before @ inner @ unwrapped rs rest"

definition two_regions :: pystr where
  "two_regions = fence_open @ py ''a'' @ fence_close @ [nl] @ fence_open @ py ''b'' @ fence_close"

text \<open>A text with an opening fence and no closing fence, and a text whose wrapped region
  leaves a wrapped region behind when its fences are taken out.\<close>

definition unclosed :: pystr where
  "unclosed = fence_open @ py ''a''"

definition nested :: pystr where
  "nested = [tick] @ fence_open @ [tick, tick] @ py ''markdown'' @ [nl] @ py ''b'' @
            fence_close @ fence_close"


text \<open>A text has a level-1 line when one of its lines begins with a hash sign and a
  space. Two examples: a title behind a closing fence, and a text with no title.\<close>

definition has_level1_line :: "pystr \<Rightarrow> bool" where
  "has_level1_line s = list_ex (prefix [hash, sp]) (split_lines s)"

definition fenced_title :: pystr where
  "fenced_title = fence_open @ py ''a'' @ [nl] @ fence_close @ py ''# T''"

definition plain_text :: pystr where
  "plain_text = py ''hello'' @ [nl] @ py ''world''"

text \<open>
  The body cut at the heading matches: the span before each match, the match, and the
  span after the last match. \<open>piece_source\<close> is the text of a piece in the body,
  \<open>piece_sections\<close> the sections that lines 69 to 78 and 84 to 86 make of it.
\<close>

datatype piece = Gap pystr | Head pystr pystr

fun pieces :: "pystr \<Rightarrow> hmatch list \<Rightarrow> nat \<Rightarrow> piece list" where
  "pieces body [] last_pos = [Gap (drop last_pos body)]"
| "pieces body (m # ms) last_pos =
     Gap (slice body last_pos (m_start m)) # Head (m_group1 m) (m_group2 m) #
     pieces body ms (m_end m)"

definition body_pieces :: "pystr \<Rightarrow> piece list" where
  "body_pieces body = pieces body (heading_finditer 0 True body) 0"


fun piece_sections :: "piece \<Rightarrow> sec list" where
  "piece_sections (Gap g) =
     (if strip g \<noteq> [] then [\<lparr>sec_type = Paragraph, sec_content = strip g\<rparr>] else [])"
| "piece_sections (Head g1 g2) =
     [\<lparr>sec_type = Heading (length g1), sec_content = g1 @ [sp] @ strip g2\<rparr>]"

text \<open>The spans of the body outside the heading matches.\<close>

fun gap_of :: "piece \<Rightarrow> pystr list" where
  "gap_of (Gap g) = [g]"
| "gap_of (Head g1 g2) = []"

definition gaps :: "pystr \<Rightarrow> pystr list" where
  "gaps body = concat (map gap_of (body_pieces body))"




definition two_headings :: pystr where
  "two_headings = py ''## A'' @ [nl, sp, nl] @ py ''## B''"






section \<open>Properties of posting\<close>

lemma py_draft_ne_published: "py ''draft'' \<noteq> py ''published''"
  by (simp add: py_def)


lemma run_calls_set:
  "set (case run_calls b as t of Inl t' \<Rightarrow> t' | Inr t' \<Rightarrow> t') \<subseteq> set t \<union> set as"
proof (induction as arbitrary: t)
  case Nil
  then show ?case by simp
next
  case (Cons x as)
  show ?case
  proof (cases "fails b t x")
    case True
    then show ?thesis by auto
  next
    case False
    with Cons[of "t @ [x]"] show ?thesis by auto
  qed
qed

lemma finally_block_cases:
  "finally_block b tr =
     (if fails b tr ContextClose then Inl (tr @ [ContextClose])
      else if fails b (tr @ [ContextClose]) BrowserClose
           then Inl (tr @ [ContextClose, BrowserClose])
           else Inr (tr @ [ContextClose, BrowserClose]))"
  by (simp add: finally_block_def)

lemma post_article_open:
  assumes "\<not> fails b [] PlaywrightStart"
    and "open_session b = Inr tr"
    and "try_block b now self (fst (parse_markdown (selected_content a)))
           (snd (parse_markdown (selected_content a))) a tr = (r, a', tr')"
  shows "post_article b now self a =
     (if fails b tr' ContextClose \<or> fails b (tr' @ [ContextClose]) BrowserClose \<or>
         fails b (tr' @ [ContextClose, BrowserClose]) PlaywrightStop
      then Raised else Returned r,
      a',
      tr' @ (if fails b tr' ContextClose then [ContextClose] else [ContextClose, BrowserClose]) @
        [PlaywrightStop])"
proof -
  obtain t sections where pm: "parse_markdown (selected_content a) = (t, sections)"
    by (cases "parse_markdown (selected_content a)")
  with assms(3) have tb: "try_block b now self t sections a tr = (r, a', tr')"
    by simp
  show ?thesis
    by (simp add: post_article_def pm assms(1,2) tb finally_block_cases)
qed

lemma post_article_not_open:
  assumes "fails b [] PlaywrightStart \<or> isl (open_session b)"
  shows "fst (post_article b now self a) = Raised \<and>
         fst (snd (post_article b now self a)) = a \<and>
         ContextClose \<notin> set (snd (snd (post_article b now self a))) \<and>
         BrowserClose \<notin> set (snd (snd (post_article b now self a)))"
proof (cases "fails b [] PlaywrightStart")
  case True
  then show ?thesis
    by (simp add: post_article_def split: prod.splits)
next
  case False
  with assms obtain tr where o: "open_session b = Inl tr"
    by (cases "open_session b") auto
  from run_calls_set[of b "[Launch, NewContext, NewPage]" "[PlaywrightStart]"] o
  have "set tr \<subseteq> {PlaywrightStart, Launch, NewContext, NewPage}"
    by (auto simp: open_session_def)
  then have "ContextClose \<notin> set tr \<and> BrowserClose \<notin> set tr"
    by auto
  with False o show ?thesis
    by (simp add: post_article_def split: prod.splits)
qed

lemma publish_step_inv:
  "article_inv a \<Longrightarrow> article_inv (fst (publish_step b now a t))"
  by (auto simp: publish_step_def article_inv_def split: sum.splits)

lemma try_block_inv:
  "article_inv a \<Longrightarrow> article_inv (fst (snd (try_block b now self t sections a tr)))"
  using publish_step_inv[of a b now]
  by (auto simp: try_block_def split: sum.splits prod.splits)

lemma post_article_inv:
  assumes "article_inv a"
  shows "article_inv (fst (snd (post_article b now self a)))"
proof (cases "fails b [] PlaywrightStart \<or> isl (open_session b)")
  case True
  from post_article_not_open[OF True] assms show ?thesis
    by simp
next
  case False
  then obtain tr where o: "open_session b = Inr tr"
    by (cases "open_session b") auto
  obtain r a' tr' where t: "try_block b now self (fst (parse_markdown (selected_content a)))
      (snd (parse_markdown (selected_content a))) a tr = (r, a', tr')"
    by (cases "try_block b now self (fst (parse_markdown (selected_content a)))
      (snd (parse_markdown (selected_content a))) a tr")
  from False have s: "\<not> fails b [] PlaywrightStart"
    by simp
  from try_block_inv[OF assms, of b now self "fst (parse_markdown (selected_content a))"
      "snd (parse_markdown (selected_content a))" tr] t
  have "article_inv a'"
    by simp
  with post_article_open[OF s o t] show ?thesis
    by simp
qed














lemma get_datetime_Some:
  assumes "get_datetime f v = Inr r"
  shows "r \<noteq> None \<longleftrightarrow> (\<exists>s. v = Some s \<and> s \<noteq> [])"
proof (cases v)
  case None
  with assms show ?thesis by (auto simp: get_datetime_def)
next
  case (Some x)
  show ?thesis
  proof (cases "x = []")
    case True
    with Some assms show ?thesis by (auto simp: get_datetime_def)
  next
    case False
    with Some assms show ?thesis by (cases "f x") (auto simp: get_datetime_def)
  qed
qed

lemma from_dict_fields:
  "from_dict f now d = Inr a \<Longrightarrow>
   get_datetime f (d_published_at d) = Inr (published_at a) \<and>
   status a = (case d_status d of None \<Rightarrow> py ''draft'' | Some s \<Rightarrow> s)"
  by (auto simp: from_dict_def Article_init_def split: sum.splits option.splits)

lemma from_dict_inv:
  assumes "from_dict f now d = Inr a"
  shows "article_inv a \<longleftrightarrow>
     ((\<exists>s. d_published_at d = Some s \<and> s \<noteq> []) \<longleftrightarrow> d_status d = Some (py ''published''))"
proof -
  from from_dict_fields[OF assms]
  have g: "get_datetime f (d_published_at d) = Inr (published_at a)"
    and st: "status a = (case d_status d of None \<Rightarrow> py ''draft'' | Some s \<Rightarrow> s)"
    by simp_all
  have "status a = py ''published'' \<longleftrightarrow> d_status d = Some (py ''published'')"
    using st py_draft_ne_published by (cases "d_status d") auto
  with get_datetime_Some[OF g] show ?thesis
    by (simp add: article_inv_def)
qed



text \<open>
  Claim C2, as the code has it. An exception while the session is opened (Playwright
  started, browser launched, context and page created) leaves \<^verbatim>\<open>post_article\<close>: no
  value is returned, the article is the one it was given, and neither the context nor the
  browser is closed by the function. Once the session is open, every path ends with
  \<^verbatim>\<open>context.close()\<close>, then \<^verbatim>\<open>browser.close()\<close> unless closing the context
  raised, then the stop of Playwright; and if a step of the \<^verbatim>\<open>try\<close> block up to and
  including the wait after saving raises, the article is the one it was given and
  \<^verbatim>\<open>post_article\<close> returns false, unless one of the three closing calls raises, in
  which case that exception leaves the function.
\<close>

theorem C2_failure_before_save:
  "(fails b [] PlaywrightStart \<or> isl (open_session b) \<longrightarrow>
      fst (post_article b now self a) = Raised \<and>
      fst (snd (post_article b now self a)) = a \<and>
      ContextClose \<notin> set (snd (snd (post_article b now self a))) \<and>
      BrowserClose \<notin> set (snd (snd (post_article b now self a)))) \<and>
   (\<not> fails b [] PlaywrightStart \<and> open_session b = Inr tr \<longrightarrow>
      (\<exists>tr'. snd (snd (post_article b now self a)) =
         tr' @ (if fails b tr' ContextClose then [ContextClose]
                else [ContextClose, BrowserClose]) @ [PlaywrightStop]) \<and>
      (\<forall>tr'. run_calls b (steps_to_save self (fst (parse_markdown (selected_content a)))
                 (snd (parse_markdown (selected_content a)))) tr = Inl tr' \<longrightarrow>
         post_article b now self a =
           (if fails b tr' ContextClose \<or> fails b (tr' @ [ContextClose]) BrowserClose \<or>
               fails b (tr' @ [ContextClose, BrowserClose]) PlaywrightStop
            then Raised else Returned False,
            a,
            tr' @ (if fails b tr' ContextClose then [ContextClose]
                   else [ContextClose, BrowserClose]) @ [PlaywrightStop])))"
proof (intro conjI impI allI)
  assume "fails b [] PlaywrightStart \<or> isl (open_session b)"
  from post_article_not_open[OF this, of now self a]
  show "fst (post_article b now self a) = Raised"
    and "fst (snd (post_article b now self a)) = a"
    and "ContextClose \<notin> set (snd (snd (post_article b now self a)))"
    and "BrowserClose \<notin> set (snd (snd (post_article b now self a)))"
    by simp_all
next
  assume o: "\<not> fails b [] PlaywrightStart \<and> open_session b = Inr tr"
  obtain r a' tr' where t: "try_block b now self (fst (parse_markdown (selected_content a)))
      (snd (parse_markdown (selected_content a))) a tr = (r, a', tr')"
    by (cases "try_block b now self (fst (parse_markdown (selected_content a)))
      (snd (parse_markdown (selected_content a))) a tr")
  from o post_article_open[OF _ _ t]
  have "snd (snd (post_article b now self a)) =
         tr' @ (if fails b tr' ContextClose then [ContextClose]
                else [ContextClose, BrowserClose]) @ [PlaywrightStop]"
    by simp
  then show "\<exists>tr'. snd (snd (post_article b now self a)) =
         tr' @ (if fails b tr' ContextClose then [ContextClose]
                else [ContextClose, BrowserClose]) @ [PlaywrightStop]"
    by (rule exI)
next
  fix tr'
  assume o: "\<not> fails b [] PlaywrightStart \<and> open_session b = Inr tr"
    and r: "run_calls b (steps_to_save self (fst (parse_markdown (selected_content a)))
                 (snd (parse_markdown (selected_content a)))) tr = Inl tr'"
  from r have t: "try_block b now self (fst (parse_markdown (selected_content a)))
      (snd (parse_markdown (selected_content a))) a tr = (False, a, tr')"
    by (simp add: try_block_def)
  from o post_article_open[OF _ _ t]
  show "post_article b now self a =
           (if fails b tr' ContextClose \<or> fails b (tr' @ [ContextClose]) BrowserClose \<or>
               fails b (tr' @ [ContextClose, BrowserClose]) PlaywrightStop
            then Raised else Returned False,
            a,
            tr' @ (if fails b tr' ContextClose then [ContextClose]
                   else [ContextClose, BrowserClose]) @ [PlaywrightStop])"
    by simp
qed

text \<open>The same at a browser where the login click fails, and at one where the page
  cannot be created.\<close>

theorem C2_witness:
  "\<not> fails login_fails [] PlaywrightStart \<and>
   open_session login_fails = Inr [PlaywrightStart, Launch, NewContext, NewPage] \<and>
   post_article login_fails 7 a_service a_draft =
     (Returned False, a_draft,
      [PlaywrightStart, Launch, NewContext, NewPage, Goto LoginPage,
       WaitForSelector EmailInput, WaitForSelector PasswordInput, WaitForLoadState,
       Fill EmailInput (py ''a@b.c''), Fill PasswordInput (py ''pw''), Click LoginButton,
       ContextClose, BrowserClose, PlaywrightStop]) \<and>
   isl (open_session new_page_fails) \<and>
   fst (post_article new_page_fails 7 a_service a_draft) = Raised \<and>
   fst (snd (post_article new_page_fails 7 a_service a_draft)) = a_draft \<and>
   ContextClose \<notin> set (snd (snd (post_article new_page_fails 7 a_service a_draft))) \<and>
   BrowserClose \<notin> set (snd (snd (post_article new_page_fails 7 a_service a_draft)))"
proof -
  let ?tr = "[PlaywrightStart, Launch, NewContext, NewPage]"
  let ?tr' = "[PlaywrightStart, Launch, NewContext, NewPage, Goto LoginPage,
       WaitForSelector EmailInput, WaitForSelector PasswordInput, WaitForLoadState,
       Fill EmailInput (py ''a@b.c''), Fill PasswordInput (py ''pw''), Click LoginButton]"
  have h1: "\<not> fails login_fails [] PlaywrightStart"
    by (simp add: login_fails_def)
  have h2: "open_session login_fails = Inr ?tr"
    by (simp add: login_fails_def open_session_def)
  have h3: "run_calls login_fails
       (steps_to_save a_service (fst (parse_markdown (selected_content a_draft)))
          (snd (parse_markdown (selected_content a_draft)))) ?tr = Inl ?tr'"
    by (simp add: login_fails_def steps_to_save_def login_actions_def a_service_def)
  have h4: "isl (open_session new_page_fails)"
    by (simp add: new_page_fails_def open_session_def)
  have f: "\<not> fails login_fails t ContextClose \<and> \<not> fails login_fails t BrowserClose \<and>
           \<not> fails login_fails t PlaywrightStop" for t
    by (simp add: login_fails_def)
  from C2_failure_before_save[of login_fails 7 a_service a_draft ?tr] h1 h2 h3
  have "post_article login_fails 7 a_service a_draft =
           (if fails login_fails ?tr' ContextClose \<or>
               fails login_fails (?tr' @ [ContextClose]) BrowserClose \<or>
               fails login_fails (?tr' @ [ContextClose, BrowserClose]) PlaywrightStop
            then Raised else Returned False,
            a_draft,
            ?tr' @ (if fails login_fails ?tr' ContextClose then [ContextClose]
                   else [ContextClose, BrowserClose]) @ [PlaywrightStop])"
    by blast
  then have A: "post_article login_fails 7 a_service a_draft =
     (Returned False, a_draft, ?tr' @ [ContextClose, BrowserClose, PlaywrightStop])"
    by (simp add: f)
  from C2_failure_before_save[of new_page_fails 7 a_service a_draft ?tr] h4
  have B: "fst (post_article new_page_fails 7 a_service a_draft) = Raised \<and>
   fst (snd (post_article new_page_fails 7 a_service a_draft)) = a_draft \<and>
   ContextClose \<notin> set (snd (snd (post_article new_page_fails 7 a_service a_draft))) \<and>
   BrowserClose \<notin> set (snd (snd (post_article new_page_fails 7 a_service a_draft)))"
    by blast
  from h1 h2 h4 A B show ?thesis
    by simp
qed

text \<open>
  Claim C2 as stated fails where the step that raises is the launch of the browser: it
  is before the save and outside the \<^verbatim>\<open>try\<close>, so the exception leaves
  \<^verbatim>\<open>post_article\<close>, nothing is returned, and neither the context nor the browser
  is closed by the function.
\<close>

theorem C2_counterexample:
  "post_article launch_fails 7 a_service a_draft =
     (Raised, a_draft, [PlaywrightStart, Launch, PlaywrightStop])"
  by (simp add: post_article_def launch_fails_def open_session_def split: prod.splits)




text \<open>
  Claim C5, as the code has it. The constructor stores the status and the publication
  date it is given: the article it builds has the publication date set exactly when the
  status is \<^verbatim>\<open>published\<close> if and only if the arguments are so (with no status given,
  the status is \<^verbatim>\<open>draft\<close>); \<^verbatim>\<open>post_article\<close> keeps that property; and
  \<^verbatim>\<open>from_dict\<close> gives an article with the property exactly when the dictionary has
  a non-empty publication date exactly when its status is \<^verbatim>\<open>published\<close>.
\<close>

theorem C5_invariant:
  "(article_inv (Article_init now t c st cr pub imp) \<longleftrightarrow>
      (pub \<noteq> None \<longleftrightarrow> st = Some (py ''published''))) \<and>
   status (Article_init now t c st cr pub imp) =
      (case st of None \<Rightarrow> py ''draft'' | Some s \<Rightarrow> s) \<and>
   published_at (Article_init now t c st cr pub imp) = pub \<and>
   (article_inv a \<longrightarrow> article_inv (fst (snd (post_article b now' self a)))) \<and>
   (from_dict f now d = Inr a' \<longrightarrow>
     (article_inv a' \<longleftrightarrow>
       ((\<exists>s. d_published_at d = Some s \<and> s \<noteq> []) \<longleftrightarrow> d_status d = Some (py ''published''))))"
proof -
  have 1: "article_inv (Article_init now t c st cr pub imp) \<longleftrightarrow>
      (pub \<noteq> None \<longleftrightarrow> st = Some (py ''published''))"
    using py_draft_ne_published
    by (cases st) (auto simp: article_inv_def Article_init_def)
  have 2: "status (Article_init now t c st cr pub imp) =
      (case st of None \<Rightarrow> py ''draft'' | Some s \<Rightarrow> s) \<and>
      published_at (Article_init now t c st cr pub imp) = pub"
    by (simp add: Article_init_def)
  from 1 2 post_article_inv[of a b now' self] from_dict_inv[of f now d a'] show ?thesis
    by blast
qed

text \<open>The same at a draft posted through a browser that publishes, and at the dictionary of
  a published article.\<close>

theorem C5_witness:
  "article_inv a_draft \<and>
   article_inv (fst (snd (post_article publishing 9 a_service a_draft))) \<and>
   from_dict iso_ok 7 a_dict =
     Inr (Article_init 7 (py ''t'') (py ''c'') (Some (py ''published'')) None (Some 3) None) \<and>
   article_inv (Article_init 7 (py ''t'') (py ''c'') (Some (py ''published'')) None (Some 3) None)"
proof -
  let ?a = "Article_init 7 (py ''t'') (py ''c'') (Some (py ''published'')) None (Some 3) None"
  have h1: "article_inv a_draft"
    using py_draft_ne_published by (simp add: a_draft_def Article_init_def article_inv_def)
  have h2: "from_dict iso_ok 7 a_dict = Inr ?a"
    by (simp add: from_dict_def a_dict_def get_datetime_def iso_ok_def py_def)
  have h3: "(\<exists>s. d_published_at a_dict = Some s \<and> s \<noteq> []) \<longleftrightarrow>
            d_status a_dict = Some (py ''published'')"
    by (simp add: a_dict_def py_def)
  from C5_invariant[where a = a_draft and b = publishing and now' = 9 and self = a_service
      and f = iso_ok and now = 7 and d = a_dict and a' = ?a] h1 h2 h3
  have "article_inv (fst (snd (post_article publishing 9 a_service a_draft))) \<and> article_inv ?a"
    by blast
  with h1 h2 show ?thesis
    by simp
qed

text \<open>
  Claim C5 as stated fails for the constructor: it stores the status and the
  publication date it is given, so the status \<^verbatim>\<open>published\<close> with no publication date
  is an article it builds.
\<close>

theorem C5_counterexample:
  "\<not> article_inv (Article_init 7 [] [] (Some (py ''published'')) None None None)"
  by (simp add: article_inv_def Article_init_def)



section \<open>Properties of the parser\<close>

lemma fence_open_length: "length fence_open = 12"
  by (simp add: fence_open_def)

lemma fence_open_nth_tick:
  assumes "n < 12" and "fence_open ! n = tick"
  shows "n < 3"
proof (rule ccontr)
  assume "\<not> n < 3"
  then have n: "3 \<le> n" by simp
  with assms(1) have "drop 3 fence_open ! (n - 3) = fence_open ! n"
    by (simp add: fence_open_length)
  moreover from n assms(1) have "drop 3 fence_open ! (n - 3) \<in> set (drop 3 fence_open)"
    by (intro nth_mem) (simp add: fence_open_length)
  moreover have "tick \<notin> set (drop 3 fence_open)"
    by (simp add: fence_open_def)
  ultimately show False using assms(2) by simp
qed

lemma no_open_across:
  assumes p: "prefix fence_open (b @ fence_open @ x)" and b: "b \<noteq> []"
  shows "prefix fence_open b"
proof (rule ccontr)
  assume np: "\<not> prefix fence_open b"
  from p have "prefix fence_open b \<or> (\<exists>us. fence_open = b @ us \<and> prefix us (fence_open @ x))"
    by (simp only: prefix_append)
  with np obtain us where e: "b @ us = fence_open" and pu: "prefix us (fence_open @ x)"
    by metis
  from np e have us: "us \<noteq> []" by auto
  from e have len: "length b + length us = 12"
    using fence_open_length by (metis length_append)
  from pu obtain zs where z: "us @ zs = fence_open @ x"
    by (auto simp: prefix_def)
  have nth_us: "us ! i = fence_open ! i" if "i < length us" for i
  proof -
    from that len have "i < length fence_open" by (simp add: fence_open_length)
    then have "(fence_open @ x) ! i = fence_open ! i" by (simp add: nth_append)
    moreover from that have "(us @ zs) ! i = us ! i" by (simp add: nth_append)
    ultimately show ?thesis using z by simp
  qed
  have nth_b: "fence_open ! (length b + i) = us ! i" for i
    using e nth_append_length_plus[of b us i] by simp
  have t0: "fence_open ! 0 = tick" and t2: "fence_open ! 2 = tick"
    by (simp_all add: fence_open_def)
  from us have "0 < length us" by simp
  from nth_us[OF this] nth_b[of 0] t0 have "fence_open ! (length b) = tick" by simp
  moreover from len us have "length b < 12" by (cases us) auto
  ultimately have l3: "length b < 3" by (rule fence_open_nth_tick[rotated])
  with len have "2 < length us" by simp
  from nth_us[OF this] nth_b[of 2] t2 have "fence_open ! (length b + 2) = tick" by simp
  moreover from l3 have "length b + 2 < 12" by simp
  ultimately have "length b + 2 < 3" by (rule fence_open_nth_tick[rotated])
  with b show False by (cases b) auto
qed

lemma remove_before:
  "\<not> sublist fence_open before \<Longrightarrow>
   remove_markdown_block (before @ fence_open @ x) = before @ remove_markdown_block (fence_open @ x)"
proof (induction before)
  case Nil
  then show ?case by simp
next
  case (Cons c cs)
  have "\<not> prefix fence_open ((c # cs) @ fence_open @ x)"
  proof
    assume "prefix fence_open ((c # cs) @ fence_open @ x)"
    then have "prefix fence_open (c # cs)" by (rule no_open_across) simp
    then have "sublist fence_open (c # cs)" by (rule prefix_imp_sublist)
    with Cons.prems show False by simp
  qed
  then have m: "match_fence (c # cs @ fence_open @ x) = None"
    by (simp add: match_fence_def)
  from Cons.prems have "\<not> sublist fence_open cs"
    by (simp add: sublist_Cons_right)
  with Cons.IH m show ?case by simp
qed

lemma close_prefix_short:
  "s \<noteq> [] \<Longrightarrow> prefix fence_close (s @ fence_close @ rest) \<Longrightarrow> prefix fence_close (s @ [tick, tick])"
proof (cases s)
  case Nil
  assume "s \<noteq> []" with Nil show ?thesis by simp
next
  case (Cons a s1)
  assume p: "prefix fence_close (s @ fence_close @ rest)"
  show ?thesis
  proof (cases s1)
    case Nil
    with Cons p show ?thesis by (simp add: fence_close_def)
  next
    case (Cons b s2)
    with \<open>s = a # s1\<close> p show ?thesis by (cases s2) (simp_all add: fence_close_def)
  qed
qed

lemma find_fence_close_first:
  "\<not> sublist fence_close (inner @ [tick, tick]) \<Longrightarrow>
   find_fence_close (inner @ fence_close @ rest) = Some (inner, rest)"
proof (induction inner)
  case Nil
  then show ?case by (simp add: fence_close_def)
next
  case (Cons c cs)
  have "\<not> prefix fence_close ((c # cs) @ fence_close @ rest)"
  proof
    assume "prefix fence_close ((c # cs) @ fence_close @ rest)"
    then have "prefix fence_close ((c # cs) @ [tick, tick])"
      by (intro close_prefix_short) simp_all
    then have "sublist fence_close ((c # cs) @ [tick, tick])" by (rule prefix_imp_sublist)
    with Cons.prems show False by simp
  qed
  then have np: "\<not> prefix fence_close (c # cs @ fence_close @ rest)" by simp
  from Cons.prems have "\<not> sublist fence_close (cs @ [tick, tick])"
    by (simp add: sublist_Cons_right)
  from Cons.IH[OF this] np show ?case by simp
qed

lemma remove_region:
  assumes "\<not> sublist fence_close (inner @ [tick, tick])"
  shows "remove_markdown_block (fence_open @ inner @ fence_close @ rest) =
         inner @ remove_markdown_block rest"
proof -
  have "match_fence (fence_open @ inner @ fence_close @ rest) = Some (inner, rest)"
    using find_fence_close_first[OF assms] by (simp add: match_fence_def)
  moreover obtain c cs where "fence_open @ inner @ fence_close @ rest = c # cs"
    by (auto simp: fence_open_def)
  ultimately show ?thesis by simp
qed

lemma find_fence_close_sound:
  "find_fence_close s = Some (g, rest) \<Longrightarrow> s = g @ fence_close @ rest"
proof (induction s arbitrary: g)
  case Nil
  then show ?case by simp
next
  case (Cons c cs)
  show ?case
  proof (cases "prefix fence_close (c # cs)")
    case True
    then obtain zs where z: "c # cs = fence_close @ zs" by (auto simp: prefix_def)
    have "drop 3 (fence_close @ zs) = zs" by (simp add: fence_close_def)
    with z have d: "drop 3 (c # cs) = zs" by simp
    from True Cons.prems have "g = []" and "rest = drop 3 (c # cs)" by simp_all
    with d z show ?thesis by simp
  next
    case False
    with Cons.prems obtain g' where "find_fence_close cs = Some (g', rest)" and "g = c # g'"
      by (auto split: option.splits)
    with Cons.IH[of g'] show ?thesis by simp
  qed
qed

lemma match_fence_sound:
  assumes "match_fence s = Some (g, rest)"
  shows "s = fence_open @ g @ fence_close @ rest"
proof -
  from assms have p: "prefix fence_open s"
    and f: "find_fence_close (drop (length fence_open) s) = Some (g, rest)"
    by (auto simp: match_fence_def split: if_splits)
  from p obtain zs where z: "s = fence_open @ zs" by (auto simp: prefix_def)
  with f have "find_fence_close zs = Some (g, rest)" by simp
  from find_fence_close_sound[OF this] z show ?thesis by simp
qed

lemma remove_no_region:
  "\<not> (\<exists>p i r. s = p @ fence_open @ i @ fence_close @ r) \<Longrightarrow> remove_markdown_block s = s"
proof (induction s)
  case Nil
  then show ?case by simp
next
  case (Cons c cs)
  have m: "match_fence (c # cs) = None"
  proof (cases "match_fence (c # cs)")
    case None
    then show ?thesis .
  next
    case (Some gr)
    obtain g rest where "gr = (g, rest)" by (cases gr)
    with Some have "c # cs = [] @ fence_open @ g @ fence_close @ rest"
      using match_fence_sound by simp
    with Cons.prems show ?thesis by blast
  qed
  have "\<not> (\<exists>p i r. cs = p @ fence_open @ i @ fence_close @ r)"
  proof
    assume "\<exists>p i r. cs = p @ fence_open @ i @ fence_close @ r"
    then obtain p i r where "cs = p @ fence_open @ i @ fence_close @ r" by blast
    then have "c # cs = (c # p) @ fence_open @ i @ fence_close @ r" by simp
    with Cons.prems show False by blast
  qed
  with Cons.IH m show ?case by simp
qed

lemma find_fence_close_None:
  "find_fence_close s = None \<Longrightarrow> \<not> sublist fence_close s"
proof (induction s)
  case Nil
  then show ?case by (simp add: fence_close_def)
next
  case (Cons c cs)
  then have "\<not> prefix fence_close (c # cs)" and "find_fence_close cs = None"
    by (auto split: if_splits option.splits)
  with Cons.IH show ?case by (simp add: sublist_Cons_right)
qed

lemma find_fence_close_minimal:
  "find_fence_close s = Some (g, rest) \<Longrightarrow> \<not> sublist fence_close (g @ [tick, tick])"
proof (induction s arbitrary: g)
  case Nil
  then show ?case by simp
next
  case (Cons c cs)
  show ?case
  proof (cases "prefix fence_close (c # cs)")
    case True
    with Cons.prems have "g = []" by simp
    then show ?thesis by (simp add: sublist_Cons_right fence_close_def)
  next
    case False
    with Cons.prems obtain g' where f: "find_fence_close cs = Some (g', rest)" and g: "g = c # g'"
      by (auto split: option.splits)
    from find_fence_close_sound[OF f] have cs: "cs = g' @ fence_close @ rest" .
    have "\<not> prefix fence_close (c # g' @ [tick, tick])"
    proof
      assume "prefix fence_close (c # g' @ [tick, tick])"
      moreover have "prefix (c # g' @ [tick, tick]) (c # cs)"
        by (simp add: cs fence_close_def)
      ultimately have "prefix fence_close (c # cs)" by (rule prefix_order.trans)
      with False show False by simp
    qed
    with Cons.IH[OF f] g show ?thesis by (simp add: sublist_Cons_right)
  qed
qed

lemma match_fence_complete:
  "match_fence (fence_open @ zs @ fence_close @ r) \<noteq> None"
proof
  assume "match_fence (fence_open @ zs @ fence_close @ r) = None"
  then have "find_fence_close (zs @ fence_close @ r) = None"
    by (simp add: match_fence_def)
  from find_fence_close_None[OF this] show False
    by (simp add: sublist_append)
qed

lemma fence_decomposition:
  "\<exists>rs rest. s = wrapped rs rest \<and>
     (\<forall>(before, inner) \<in> set rs.
        \<not> sublist fence_open before \<and> \<not> sublist fence_close (inner @ [tick, tick])) \<and>
     \<not> (\<exists>p i r. rest = p @ fence_open @ i @ fence_close @ r)"
proof (induction s rule: remove_markdown_block.induct)
  case 1
  have "[] = wrapped [] []" by simp
  moreover have "\<not> (\<exists>p i r. ([]::pystr) = p @ fence_open @ i @ fence_close @ r)"
    by (simp add: fence_open_def)
  ultimately show ?case by (intro exI[of _ "[]"]) simp
next
  case (2 c cs)
  show ?case
  proof (cases "match_fence (c # cs)")
    case (Some gr)
    obtain g rest' where gr: "gr = (g, rest')" by (cases gr)
    from 2(2)[OF Some gr[symmetric]] obtain rs r where
      ih: "rest' = wrapped rs r"
        "\<forall>(before, inner) \<in> set rs.
           \<not> sublist fence_open before \<and> \<not> sublist fence_close (inner @ [tick, tick])"
        "\<not> (\<exists>p i r'. r = p @ fence_open @ i @ fence_close @ r')"
      by blast
    from Some gr have m: "match_fence (c # cs) = Some (g, rest')" by simp
    from match_fence_sound[OF m] ih(1) have e: "c # cs = wrapped (([], g) # rs) r"
      by simp
    from m have "find_fence_close (drop (length fence_open) (c # cs)) = Some (g, rest')"
      by (auto simp: match_fence_def split: if_splits)
    from find_fence_close_minimal[OF this]
    have "\<not> sublist fence_close (g @ [tick, tick])" .
    moreover have "\<not> sublist fence_open []" by (simp add: fence_open_def)
    ultimately have "\<forall>(before, inner) \<in> set (([], g) # rs).
           \<not> sublist fence_open before \<and> \<not> sublist fence_close (inner @ [tick, tick])"
      using ih(2) by simp
    with e ih(3) show ?thesis by blast
  next
    case None
    from 2(1)[OF None] obtain rs r where
      ih: "cs = wrapped rs r"
        "\<forall>(before, inner) \<in> set rs.
           \<not> sublist fence_open before \<and> \<not> sublist fence_close (inner @ [tick, tick])"
        "\<not> (\<exists>p i r'. r = p @ fence_open @ i @ fence_close @ r')"
      by blast
    show ?thesis
    proof (cases rs)
      case Nil
      with ih have cs: "cs = r" by simp
      have "\<not> (\<exists>p i r'. c # cs = p @ fence_open @ i @ fence_close @ r')"
      proof
        assume "\<exists>p i r'. c # cs = p @ fence_open @ i @ fence_close @ r'"
        then obtain p i r' where e: "c # cs = p @ fence_open @ i @ fence_close @ r'" by blast
        show False
        proof (cases p)
          case Nil
          with e match_fence_complete[of i r'] None show False by simp
        next
          case (Cons c' p')
          with e have "cs = p' @ fence_open @ i @ fence_close @ r'" by simp
          with cs ih(3) show False by blast
        qed
      qed
      moreover have "c # cs = wrapped [] (c # cs)" by simp
      ultimately show ?thesis by (intro exI[of _ "[]"] exI[of _ "c # cs"]) simp
    next
      case (Cons bi rs')
      obtain b i where bi: "bi = (b, i)" by (cases bi)
      with Cons ih(1) have e: "c # cs = wrapped ((c # b, i) # rs') r" by simp
      have "\<not> prefix fence_open (c # b)"
      proof
        assume "prefix fence_open (c # b)"
        then obtain zs where "c # b = fence_open @ zs" by (auto simp: prefix_def)
        with e have "c # cs = fence_open @ (zs @ fence_open @ i) @ fence_close @ wrapped rs' r"
          by simp
        with match_fence_complete[of "zs @ fence_open @ i" "wrapped rs' r"] None
        show False by simp
      qed
      moreover from ih(2) Cons bi have "\<not> sublist fence_open b"
        and "\<not> sublist fence_close (i @ [tick, tick])"
        and "\<forall>(before, inner) \<in> set rs'.
           \<not> sublist fence_open before \<and> \<not> sublist fence_close (inner @ [tick, tick])"
        by simp_all
      ultimately have "\<forall>(before, inner) \<in> set ((c # b, i) # rs').
           \<not> sublist fence_open before \<and> \<not> sublist fence_close (inner @ [tick, tick])"
        by (simp add: sublist_Cons_right)
      with e ih(3) show ?thesis by blast
    qed
  qed
qed

lemma remove_wrapped:
  "\<forall>(before, inner) \<in> set rs.
      \<not> sublist fence_open before \<and> \<not> sublist fence_close (inner @ [tick, tick]) \<Longrightarrow>
   remove_markdown_block (wrapped rs rest) = unwrapped rs (remove_markdown_block rest)"
proof (induction rs)
  case Nil
  then show ?case by simp
next
  case (Cons r rs)
  obtain before inner where r: "r = (before, inner)" by (cases r)
  with Cons.prems have b: "\<not> sublist fence_open before"
    and i: "\<not> sublist fence_close (inner @ [tick, tick])" by auto
  from Cons have IH: "remove_markdown_block (wrapped rs rest) =
      unwrapped rs (remove_markdown_block rest)" by auto
  show ?case
    by (simp add: r remove_before[OF b] remove_region[OF i] IH)
qed

text \<open>
  Claim C4, as the code has it. \<^verbatim>\<open>re.sub\<close> is called without a count, so every
  wrapped region is replaced by its interior, from left to right, in one pass. A wrapped
  region is an opening fence \<^verbatim>\<open>```markdown\<close> with its line feed, an interior, and the
  first three backticks after the opening fence. A text in which no opening fence is
  followed anywhere by three backticks, such as a text with an unclosed fence, is returned
  as it is. A text made of any number of wrapped regions, each after a text with no
  opening fence in it, loses all the fences; the interiors and the texts between the
  regions are copied as they are and are not scanned again, and the scan goes on in the
  text after the last region. Every text is of one of these two forms.
\<close>

theorem C4_every_region:
  "(\<not> (\<exists>p i r. s = p @ fence_open @ i @ fence_close @ r) \<longrightarrow> remove_markdown_block s = s) \<and>
   ((\<forall>(before, inner) \<in> set rs.
        \<not> sublist fence_open before \<and> \<not> sublist fence_close (inner @ [tick, tick])) \<longrightarrow>
      remove_markdown_block (wrapped rs rest) = unwrapped rs (remove_markdown_block rest)) \<and>
   (\<exists>rs' rest'. s = wrapped rs' rest' \<and>
      (\<forall>(before, inner) \<in> set rs'.
         \<not> sublist fence_open before \<and> \<not> sublist fence_close (inner @ [tick, tick])) \<and>
      \<not> (\<exists>p i r. rest' = p @ fence_open @ i @ fence_close @ r) \<and>
      remove_markdown_block s = unwrapped rs' rest')"
proof (intro conjI impI)
  assume "\<not> (\<exists>p i r. s = p @ fence_open @ i @ fence_close @ r)"
  then show "remove_markdown_block s = s" by (rule remove_no_region)
next
  assume "\<forall>(before, inner) \<in> set rs.
        \<not> sublist fence_open before \<and> \<not> sublist fence_close (inner @ [tick, tick])"
  then show "remove_markdown_block (wrapped rs rest) = unwrapped rs (remove_markdown_block rest)"
    by (rule remove_wrapped)
next
  from fence_decomposition[of s] obtain rs' rest' where
    d: "s = wrapped rs' rest'"
      "\<forall>(before, inner) \<in> set rs'.
         \<not> sublist fence_open before \<and> \<not> sublist fence_close (inner @ [tick, tick])"
      "\<not> (\<exists>p i r. rest' = p @ fence_open @ i @ fence_close @ r)"
    by blast
  from remove_wrapped[OF d(2), of rest'] remove_no_region[OF d(3)] d(1)
  have "remove_markdown_block s = unwrapped rs' rest'" by simp
  with d show "\<exists>rs' rest'. s = wrapped rs' rest' \<and>
      (\<forall>(before, inner) \<in> set rs'.
         \<not> sublist fence_open before \<and> \<not> sublist fence_close (inner @ [tick, tick])) \<and>
      \<not> (\<exists>p i r. rest' = p @ fence_open @ i @ fence_close @ r) \<and>
      remove_markdown_block s = unwrapped rs' rest'"
    by blast
qed

text \<open>
  Claim C4 as stated fails on a text with two wrapped regions: the second region is
  stripped as well, not left as it was.
\<close>

theorem C4_counterexample:
  "remove_markdown_block two_regions = py ''a'' @ [nl] @ py ''b'' \<and>
   remove_markdown_block two_regions \<noteq> py ''a'' @ [nl] @ fence_open @ py ''b'' @ fence_close"
  by (simp add: two_regions_def py_def fence_open_def fence_close_def match_fence_def)

text \<open>The theorem at a text with an unclosed fence, at two regions followed by a text,
  and at a text whose result holds a wrapped region again, which shows that the result is
  not scanned a second time.\<close>

theorem C4_witness:
  "remove_markdown_block unclosed = unclosed \<and>
   remove_markdown_block
     (fence_open @ py ''a'' @ fence_close @ [nl] @ fence_open @ py ''b'' @ fence_close @ py ''c'') =
   py ''a'' @ [nl] @ py ''b'' @ py ''c'' \<and>
   remove_markdown_block nested = fence_open @ py ''b'' @ fence_close \<and>
   remove_markdown_block (remove_markdown_block nested) = py ''b''"
proof -
  have h0: "\<not> (\<exists>p i r. unclosed = p @ fence_open @ i @ fence_close @ r)"
  proof
    assume "\<exists>p i r. unclosed = p @ fence_open @ i @ fence_close @ r"
    then obtain p i r where "unclosed = p @ fence_open @ i @ fence_close @ r" by blast
    then have "length unclosed = length (p @ fence_open @ i @ fence_close @ r)" by simp
    then show False by (simp add: unclosed_def py_def fence_open_def fence_close_def)
  qed
  have h0': "\<not> (\<exists>p i r. py ''c'' = p @ fence_open @ i @ fence_close @ r)"
  proof
    assume "\<exists>p i r. py ''c'' = p @ fence_open @ i @ fence_close @ r"
    then obtain p i r where "py ''c'' = p @ fence_open @ i @ fence_close @ r" by blast
    then have "length (py ''c'') = length (p @ fence_open @ i @ fence_close @ r)" by simp
    then show False by (simp add: py_def fence_open_def fence_close_def)
  qed
  have h0'': "\<not> (\<exists>p i r. fence_close = p @ fence_open @ i @ fence_close @ r)"
  proof
    assume "\<exists>p i r. fence_close = p @ fence_open @ i @ fence_close @ r"
    then obtain p i r where "fence_close = p @ fence_open @ i @ fence_close @ r" by blast
    then have "length fence_close = length (p @ fence_open @ i @ fence_close @ r)" by simp
    then show False by (simp add: fence_open_def fence_close_def)
  qed
  have h1: "\<forall>(before, inner) \<in> set [([], py ''a''), ([nl], py ''b'')].
              \<not> sublist fence_open before \<and> \<not> sublist fence_close (inner @ [tick, tick])"
    by (simp add: py_def fence_open_def fence_close_def sublist_Cons_right)
  have h2: "\<forall>(before, inner) \<in> set [([tick], [tick, tick] @ py ''markdown'' @ [nl] @ py ''b'')].
              \<not> sublist fence_open before \<and> \<not> sublist fence_close (inner @ [tick, tick])"
    by (simp add: py_def fence_open_def fence_close_def sublist_Cons_right)
  have h3: "\<forall>(before, inner) \<in> set [([], py ''b'')].
              \<not> sublist fence_open before \<and> \<not> sublist fence_close (inner @ [tick, tick])"
    by (simp add: py_def fence_open_def fence_close_def sublist_Cons_right)
  from C4_every_region[of unclosed "[]" "[]"] h0
  have A: "remove_markdown_block unclosed = unclosed" by blast
  from C4_every_region[of "py ''c''" "[([], py ''a''), ([nl], py ''b'')]" "py ''c''"] h0' h1
  have B: "remove_markdown_block (py ''c'') = py ''c''"
    and B': "remove_markdown_block (wrapped [([], py ''a''), ([nl], py ''b'')] (py ''c'')) =
        unwrapped [([], py ''a''), ([nl], py ''b'')] (remove_markdown_block (py ''c''))"
    by blast+
  from C4_every_region[of fence_close
      "[([tick], [tick, tick] @ py ''markdown'' @ [nl] @ py ''b'')]" fence_close] h0'' h2
  have C: "remove_markdown_block fence_close = fence_close"
    and C': "remove_markdown_block
          (wrapped [([tick], [tick, tick] @ py ''markdown'' @ [nl] @ py ''b'')] fence_close) =
        unwrapped [([tick], [tick, tick] @ py ''markdown'' @ [nl] @ py ''b'')]
          (remove_markdown_block fence_close)"
    by blast+
  from C4_every_region[of "[]" "[([], py ''b'')]" "[]"] h3
  have D: "remove_markdown_block (wrapped [([], py ''b'')] []) =
        unwrapped [([], py ''b'')] (remove_markdown_block [])"
    by blast
  from C C' have N: "remove_markdown_block nested = fence_open @ py ''b'' @ fence_close"
    by (simp add: nested_def py_def fence_open_def)
  from D have N': "remove_markdown_block (fence_open @ py ''b'' @ fence_close) = py ''b''"
    by simp
  from A B B' N N' show ?thesis by simp
qed

lemma split_lines_not_Nil: "split_lines s \<noteq> []"
  by (induction s) (auto split: list.splits)

lemma hd_split_lines: "hd (split_lines s) = takeWhile (\<lambda>c. c \<noteq> nl) s"
  using split_lines_not_Nil
  by (induction s) (auto split: list.splits)

lemma tl_split_lines_Cons:
  "tl (split_lines (c # cs)) = (if c = nl then split_lines cs else tl (split_lines cs))"
  using split_lines_not_Nil[of cs]
  by (auto split: list.splits)

lemma title_match_line:
  "title_match s = Some g \<Longrightarrow> prefix [hash, sp] (takeWhile (\<lambda>c. c \<noteq> nl) s)"
  by (auto simp: title_match_def prefix_def split: if_splits)

lemma list_ex_tl: "list_ex P (tl xs) \<Longrightarrow> list_ex P xs"
  by (cases xs) auto

lemma title_search_line:
  "title_search bol s = Some g \<Longrightarrow>
   list_ex (prefix [hash, sp]) (if bol then split_lines s else tl (split_lines s))"
proof (induction s arbitrary: bol)
  case Nil
  then show ?case by simp
next
  case (Cons c cs)
  show ?case
  proof (cases "bol \<and> title_match (c # cs) \<noteq> None")
    case True
    then obtain g' where "title_match (c # cs) = Some g'" by auto
    from title_match_line[OF this] have "prefix [hash, sp] (hd (split_lines (c # cs)))"
      by (simp only: hd_split_lines)
    with split_lines_not_Nil[of "c # cs"] have "list_ex (prefix [hash, sp]) (split_lines (c # cs))"
      by (cases "split_lines (c # cs)") auto
    with True show ?thesis by simp
  next
    case False
    with Cons.prems have "title_search (c = nl) cs = Some g"
      by (auto split: if_splits option.splits)
    from Cons.IH[OF this]
    have ih: "list_ex (prefix [hash, sp]) (if c = nl then split_lines cs else tl (split_lines cs))" .
    then have "list_ex (prefix [hash, sp]) (tl (split_lines (c # cs)))"
      by (simp only: tl_split_lines_Cons)
    then show ?thesis
      using list_ex_tl by (cases bol) auto
  qed
qed

lemma title_search_None:
  "\<not> has_level1_line s \<Longrightarrow> title_search True s = None"
  using title_search_line[of True s]
  by (cases "title_search True s") (auto simp: has_level1_line_def)

text \<open>
  Claim C8, as the code has it. The title is searched in the text that is left after
  the fences are stripped: when that text has no line beginning with a hash sign and a
  space, \<^verbatim>\<open>parse_markdown\<close> returns the placeholder title and segments that whole
  text; there is no error result.
\<close>

theorem C8_placeholder_title:
  "\<not> has_level1_line (remove_markdown_block md) \<Longrightarrow>
   parse_markdown md = (untitled, parse_sections (remove_markdown_block md))"
  by (simp add: parse_markdown_def extract_title_def title_search_None)

text \<open>The same at a text of two lines without a title.\<close>

theorem C8_witness:
  "\<not> has_level1_line (remove_markdown_block plain_text) \<and>
   parse_markdown plain_text = (untitled, parse_sections (remove_markdown_block plain_text))"
proof -
  have r: "remove_markdown_block plain_text = plain_text"
    by (simp add: plain_text_def py_def match_fence_def fence_open_def)
  have h: "\<not> has_level1_line (remove_markdown_block plain_text)"
    unfolding r by (simp add: has_level1_line_def plain_text_def py_def)
  from C8_placeholder_title[OF h] h show ?thesis by simp
qed

text \<open>
  Claim C8 as stated fails on a text where the title follows a closing fence on the same
  line: no line of the input begins with a hash sign and a space, but stripping the
  fence leaves such a line, and its text is the title.
\<close>

theorem C8_counterexample:
  "\<not> has_level1_line fenced_title \<and> fst (parse_markdown fenced_title) = py ''T'' \<and>
   py ''T'' \<noteq> untitled"
proof -
  have a: "\<not> has_level1_line fenced_title"
    by (simp add: has_level1_line_def fenced_title_def py_def fence_open_def fence_close_def)
  have r: "remove_markdown_block fenced_title = py ''a'' @ [nl] @ py ''# T''"
    by (simp add: fenced_title_def py_def fence_open_def fence_close_def match_fence_def)
  have b: "fst (parse_markdown fenced_title) = py ''T''"
    by (simp add: parse_markdown_def r extract_title_def py_def title_match_def
        strip_def lstrip_def rstrip_def is_space_def split: prod.splits)
  have c: "py ''T'' \<noteq> untitled"
    by (simp add: py_def untitled_def)
  from a b c show ?thesis by simp
qed












lemma sections_loop_pieces:
  "(case sections_loop body ms last_pos acc of
      (lp, secs) \<Rightarrow> secs @ piece_sections (Gap (drop lp body))) =
   acc @ concat (map piece_sections (pieces body ms last_pos))"
proof (induction ms arbitrary: last_pos acc)
  case Nil
  then show ?case by simp
next
  case (Cons m ms)
  let ?h = "\<lparr>sec_type = Heading (length (m_group1 m)),
             sec_content = m_group1 m @ [sp] @ strip (m_group2 m)\<rparr>"
  let ?p = "\<lparr>sec_type = Paragraph, sec_content = strip (slice body last_pos (m_start m))\<rparr>"
  show ?case
  proof (cases "strip (slice body last_pos (m_start m)) \<noteq> []")
    case True
    with Cons.IH[of "m_end m" "acc @ [?p, ?h]"] show ?thesis
      by (simp add: Let_def)
  next
    case False
    with Cons.IH[of "m_end m" "acc @ [?h]"] show ?thesis
      by (simp add: Let_def)
  qed
qed

lemma strip_Nil: "strip [] = []"
  by (simp add: strip_def lstrip_def rstrip_def)

lemma parse_sections_pieces:
  "parse_sections body = concat (map piece_sections (body_pieces body))"
proof -
  obtain lp secs where l: "sections_loop body (heading_finditer 0 True body) 0 [] = (lp, secs)"
    by (cases "sections_loop body (heading_finditer 0 True body) 0 []")
  from sections_loop_pieces[of body "heading_finditer 0 True body" 0 "[]"] l
  have "secs @ piece_sections (Gap (drop lp body)) =
        concat (map piece_sections (body_pieces body))"
    by (simp add: body_pieces_def)
  moreover have "parse_sections body = secs @ piece_sections (Gap (drop lp body))"
    by (simp add: parse_sections_def l Let_def strip_Nil)
  ultimately show ?thesis by simp
qed

















lemma strip_decomp:
  "\<exists>l r. g = l @ strip g @ r \<and> list_all is_space l \<and> list_all is_space r"
proof -
  let ?l = "takeWhile is_space g"
  let ?x = "dropWhile is_space g"
  let ?r = "rev (takeWhile is_space (rev ?x))"
  have e1: "rev (takeWhile is_space (rev ?x) @ dropWhile is_space (rev ?x)) = ?x"
    by simp
  have e2: "rev (takeWhile is_space (rev ?x) @ dropWhile is_space (rev ?x)) =
      rev (dropWhile is_space (rev ?x)) @ ?r"
    by (rule rev_append)
  have e3: "strip g = rev (dropWhile is_space (rev ?x))"
    by (simp add: strip_def lstrip_def rstrip_def)
  from e1 e2 e3 have x: "?x = strip g @ ?r"
    by metis
  have "g = ?l @ ?x" by simp
  with x have "g = ?l @ strip g @ ?r" by simp
  moreover have "list_all is_space ?l"
    by (auto simp: list_all_iff dest: set_takeWhileD)
  moreover have "list_all is_space ?r"
    by (auto simp: list_all_iff dest: set_takeWhileD)
  ultimately show ?thesis by blast
qed

lemma strip_empty_iff: "strip g = [] \<longleftrightarrow> list_all is_space g"
proof
  assume "strip g = []"
  with strip_decomp[of g] show "list_all is_space g" by auto
next
  assume "list_all is_space g"
  then have d: "dropWhile is_space g = []" by (induction g) simp_all
  show "strip g = []"
    by (simp only: strip_def lstrip_def rstrip_def d rev.simps dropWhile.simps)
qed



lemma paragraph_pieces:
  "filter (\<lambda>b. sec_type b = Paragraph) (concat (map piece_sections ps)) =
   map (\<lambda>g. \<lparr>sec_type = Paragraph, sec_content = strip g\<rparr>)
     (filter (\<lambda>g. \<not> list_all is_space g) (concat (map gap_of ps)))"
proof (induction ps)
  case Nil
  then show ?case by simp
next
  case (Cons p ps)
  then show ?case by (cases p) (simp_all add: strip_empty_iff)
qed

lemma pieces_nonempty:
  "b \<in> set (concat (map piece_sections ps)) \<Longrightarrow> sec_content b \<noteq> []"
proof (induction ps)
  case Nil
  then show ?case by simp
next
  case (Cons p ps)
  then show ?case by (cases p) (auto split: if_splits)
qed

text \<open>
  Claim C9. The paragraph blocks are made of the spans of the body outside the heading
  matches (before the first heading, between two headings, after the last one): each span
  that is not made of whitespace only gives one paragraph block, holding the span without
  the whitespace at its two ends, and a span of whitespace only gives none. A span is
  made of whitespace only exactly when stripping it leaves nothing. No block that
  \<^verbatim>\<open>parse_markdown\<close> emits has an empty text.
\<close>

theorem C9_whitespace_spans:
  "filter (\<lambda>b. sec_type b = Paragraph) (parse_sections body) =
     map (\<lambda>g. \<lparr>sec_type = Paragraph, sec_content = strip g\<rparr>)
       (filter (\<lambda>g. \<not> list_all is_space g) (gaps body)) \<and>
   (list_all is_space g \<longleftrightarrow> strip g = []) \<and>
   (\<forall>b \<in> set (parse_sections body). sec_content b \<noteq> []) \<and>
   (\<forall>b \<in> set (snd (parse_markdown md)). sec_content b \<noteq> [])"
proof (intro conjI)
  show "filter (\<lambda>b. sec_type b = Paragraph) (parse_sections body) =
     map (\<lambda>g. \<lparr>sec_type = Paragraph, sec_content = strip g\<rparr>)
       (filter (\<lambda>g. \<not> list_all is_space g) (gaps body))"
    by (simp only: parse_sections_pieces gaps_def paragraph_pieces)
  show "list_all is_space g \<longleftrightarrow> strip g = []"
    by (simp only: strip_empty_iff)
  show "\<forall>b \<in> set (parse_sections body). sec_content b \<noteq> []"
    using pieces_nonempty[of _ "body_pieces body"] by (auto simp only: parse_sections_pieces)
  show "\<forall>b \<in> set (snd (parse_markdown md)). sec_content b \<noteq> []"
    using pieces_nonempty
    by (auto simp: parse_markdown_def parse_sections_pieces split: prod.splits)
qed

text \<open>The same at a text of two headings with a span of whitespace between them.\<close>

theorem C9_witness:
  "gaps two_headings = [[], [nl, sp, nl], []] \<and>
   list_all is_space [nl, sp, nl] \<and> strip [nl, sp, nl] = [] \<and>
   filter (\<lambda>b. sec_type b = Paragraph) (parse_sections two_headings) = [] \<and>
   parse_sections two_headings =
     [\<lparr>sec_type = Heading 2, sec_content = py ''## A''\<rparr>,
      \<lparr>sec_type = Heading 2, sec_content = py ''## B''\<rparr>] \<and>
   \<lparr>sec_type = Heading 2, sec_content = py ''## A''\<rparr> \<in> set (parse_sections two_headings) \<and>
   sec_content \<lparr>sec_type = Heading 2, sec_content = py ''## A''\<rparr> \<noteq> []"
proof -
  have g: "gaps two_headings = [[], [nl, sp, nl], []]"
    by (simp add: gaps_def body_pieces_def two_headings_def py_def heading_match_def
        numeral_3_eq_3 slice_def)
  have w: "list_all is_space [nl, sp, nl]"
    by (simp add: is_space_def)
  have w0: "list_all is_space []"
    by simp
  have p: "parse_sections two_headings =
     [\<lparr>sec_type = Heading 2, sec_content = py ''## A''\<rparr>,
      \<lparr>sec_type = Heading 2, sec_content = py ''## B''\<rparr>]"
    by (simp add: parse_sections_def two_headings_def py_def heading_match_def
        numeral_3_eq_3 slice_def strip_def lstrip_def rstrip_def is_space_def)
  then have m: "\<lparr>sec_type = Heading 2, sec_content = py ''## A''\<rparr> \<in>
      set (parse_sections two_headings)"
    by simp
  note t = C9_whitespace_spans[of two_headings "[nl, sp, nl]" two_headings]
  from t w have A: "strip [nl, sp, nl] = []"
    by blast
  from t have "filter (\<lambda>b. sec_type b = Paragraph) (parse_sections two_headings) =
     map (\<lambda>g. \<lparr>sec_type = Paragraph, sec_content = strip g\<rparr>)
       (filter (\<lambda>g. \<not> list_all is_space g) (gaps two_headings))"
    by blast
  with g w w0 have B: "filter (\<lambda>b. sec_type b = Paragraph) (parse_sections two_headings) = []"
    by simp
  from t m have C: "sec_content \<lparr>sec_type = Heading 2, sec_content = py ''## A''\<rparr> \<noteq> []"
    by blast
  from g w A B p m C show ?thesis
    by blast
qed








end
